theory Spec2Isabelle
  imports Main "HOL-Library.Sublist"
begin

section \<open>Pitch-transposition augmentation of token sequences (augmentation.py)\<close>

text \<open>
  A shallow embedding of class \<open>TransposeAugmenter\<close>: the vocabulary classifier built by
  \<open>__init__\<close>, \<open>find_optimal_transpose\<close>, \<open>transpose_tokens\<close> and \<open>augment_sequence\<close>.
  The vocabulary, a JSON object loaded into a Python dict, is the list of its items in
  iteration order; a lookup \<open>vocab[name]\<close> is \<open>map_of\<close>. Token ids and pitches are
  Python's unbounded integers, hence \<open>int\<close>. A return value of \<open>None\<close> from
  \<open>transpose_tokens\<close> is the value \<open>None\<close> of an option type; an exception raised
  while the table is built is the left summand of a sum type. The \<open>print\<close> calls have no
  effect on any returned value and are left out.
\<close>

subsection \<open>The string operations of Python that the classifier uses\<close>

datatype py_error = ValueError | IndexError

text \<open>\<open>s.startswith(p)\<close>\<close>

definition startswith :: "string \<Rightarrow> string \<Rightarrow> bool" where
  "startswith s p = (take (length p) s = p)"

text \<open>\<open>s.split(sep)\<close> for a one-character separator: every occurrence splits, empty
  pieces are kept, and the result always has at least one piece.\<close>

fun split_on :: "char \<Rightarrow> string \<Rightarrow> string list" where
  "split_on sep [] = [[]]"
| "split_on sep (c # cs) =
     (if c = sep then [] # split_on sep cs
      else (case split_on sep cs of
              [] \<Rightarrow> [[c]]
            | w # ws \<Rightarrow> (c # w) # ws))"

text \<open>\<open>xs[i]\<close> for a non-negative constant index: out of range raises IndexError.\<close>

definition item :: "'a list \<Rightarrow> nat \<Rightarrow> py_error + 'a" where
  "item xs i = (if i < length xs then Inr (xs ! i) else Inl IndexError)"

text \<open>
  \<open>int(s)\<close> on a string. A character of the model is one code point below 256. Python
  skips whitespace at both ends, reads one optional sign and then decimal digits, where
  single underscores may stand between two digits; anything else raises ValueError. The
  whitespace that \<open>int\<close> skips is the codes 9 to 13 and 32 and, of the codes from 128 on,
  the Unicode spaces 133 and 160; the separators 28 to 31 are not skipped. The only decimal
  digits below 256 are \<open>0\<close> to \<open>9\<close>.
\<close>

definition is_space :: "char \<Rightarrow> bool" where
  "is_space c = (let n = (of_char c :: nat) in (9 \<le> n \<and> n \<le> 13) \<or> n = 32 \<or> n = 133 \<or> n = 160)"

definition is_digit :: "char \<Rightarrow> bool" where
  "is_digit c = (let n = (of_char c :: nat) in 48 \<le> n \<and> n \<le> 57)"

definition digit_val :: "char \<Rightarrow> nat" where
  "digit_val c = of_char c - 48"

definition digits_val :: "string \<Rightarrow> nat" where
  "digits_val ds = fold (\<lambda>c acc. 10 * acc + digit_val c) ds 0"

definition strip :: "string \<Rightarrow> string" where
  "strip s = rev (dropWhile is_space (rev (dropWhile is_space s)))"

text \<open>Digits in groups that single underscores separate: the text after the sign.\<close>

fun grouped :: "string \<Rightarrow> bool" where
  "grouped [] = False"
| "grouped [c] = is_digit c"
| "grouped (c # d # r) = (is_digit c \<and> (if d = CHR ''_'' then grouped r else grouped (d # r)))"

definition py_int :: "string \<Rightarrow> py_error + int" where
  "py_int s =
     (let t = strip s;
          neg = (t \<noteq> [] \<and> hd t = CHR ''-'');
          body = (if t \<noteq> [] \<and> (hd t = CHR ''-'' \<or> hd t = CHR ''+'') then tl t else t);
          ds = filter is_digit body
      in if grouped body
         then Inr (if neg then - int (digits_val ds) else int (digits_val ds))
         else Inl ValueError)"

text \<open>\<open>str(n)\<close>, as the f-string \<open>f"Pitch_{new_pitch}"\<close> formats an integer.\<close>

definition digit_char :: "nat \<Rightarrow> char" where
  "digit_char d = ''0123456789'' ! d"

fun str_nat :: "nat \<Rightarrow> string" where
  "str_nat n = (if n < 10 then [digit_char n] else str_nat (n div 10) @ [digit_char (n mod 10)])"

definition str_int :: "int \<Rightarrow> string" where
  "str_int i = (if i < 0 then CHR ''-'' # str_nat (nat (- i)) else str_nat (nat i))"

text \<open>\<open>list(range(start, stop))\<close>\<close>

function py_range :: "int \<Rightarrow> int \<Rightarrow> int list" where
  "py_range start stop = (if start < stop then start # py_range (start + 1) stop else [])"
  by pat_completeness auto
termination
  by (relation "measure (\<lambda>(start, stop). nat (stop - start))") auto

subsection \<open>The engine and its construction\<close>

text \<open>The pairs \<open>('pitch', v)\<close>, \<open>('drum_pitch', v)\<close>, \<open>('chord', s)\<close> and
  \<open>('other', None)\<close> stored in \<open>token_to_info\<close>.\<close>

datatype token_info = Pitch int | DrumPitch int | Chord string | Other

record augmenter =
  transpose_range :: "int \<times> int"
  transpose_values :: "int list"
  num_augmentations :: nat
  vocab :: "(string \<times> int) list"
  token_to_info :: "int \<rightharpoonup> token_info"
  min_pitch :: int
  max_pitch :: int
  mid_pitch :: int

text \<open>The body of the loop of \<open>__init__\<close> over \<open>vocab.items()\<close>: the entry stored for
  one token string, or the exception that \<open>int\<close> raises.\<close>

definition classify :: "string \<Rightarrow> py_error + token_info" where
  "classify token =
     (if startswith token ''Pitch_'' \<and> \<not> startswith token ''PitchDrum_'' then
        (case item (split_on CHR ''_'' token) 1 of
           Inl e \<Rightarrow> Inl e
         | Inr piece \<Rightarrow> (case py_int piece of Inl e \<Rightarrow> Inl e | Inr pitch_value \<Rightarrow> Inr (Pitch pitch_value)))
      else if startswith token ''PitchDrum_'' then
        (case item (split_on CHR ''_'' token) 1 of
           Inl e \<Rightarrow> Inl e
         | Inr piece \<Rightarrow> (case py_int piece of Inl e \<Rightarrow> Inl e | Inr pitch_value \<Rightarrow> Inr (DrumPitch pitch_value)))
      else if startswith token ''Chord_'' then
        (case item (split_on CHR ''_'' token) 1 of
           Inl e \<Rightarrow> Inl e
         | Inr chord_type \<Rightarrow> Inr (Chord chord_type))
      else Inr Other)"

text \<open>The loop itself: \<open>self.token_to_info[idx] = ...\<close> for each item in order, a later
  item overwriting an earlier one with the same id; the first exception ends it.\<close>

fun build_token_to_info ::
  "(string \<times> int) list \<Rightarrow> (int \<rightharpoonup> token_info) \<Rightarrow> py_error + (int \<rightharpoonup> token_info)" where
  "build_token_to_info [] table = Inr table"
| "build_token_to_info ((token, idx) # rest) table =
     (case classify token of
        Inl e \<Rightarrow> Inl e
      | Inr info \<Rightarrow> build_token_to_info rest (table(idx \<mapsto> info)))"

definition augmenter_init :: "(string \<times> int) list \<Rightarrow> int \<times> int \<Rightarrow> py_error + augmenter" where
  "augmenter_init vocab_items t_range =
     (let t_values = py_range (fst t_range) (snd t_range + 1) in
      case build_token_to_info vocab_items Map.empty of
        Inl e \<Rightarrow> Inl e
      | Inr table \<Rightarrow>
          Inr \<lparr> transpose_range = t_range,
                transpose_values = t_values,
                num_augmentations = length t_values,
                vocab = vocab_items,
                token_to_info = table,
                min_pitch = 21,
                max_pitch = 109,
                mid_pitch = (21 + 109) div 2 \<rparr>)"

subsection \<open>Centering\<close>

text \<open>The first loop of \<open>find_optimal_transpose\<close>: the values of the tokens whose entry
  is \<open>('pitch', value)\<close>, appended in order.\<close>

fun collect_pitches :: "augmenter \<Rightarrow> int list \<Rightarrow> int list \<Rightarrow> int list" where
  "collect_pitches a [] pitches = pitches"
| "collect_pitches a (token # rest) pitches =
     (case token_to_info a token of
        Some (Pitch v) \<Rightarrow> collect_pitches a rest (pitches @ [v])
      | _ \<Rightarrow> collect_pitches a rest pitches)"

definition find_optimal_transpose :: "augmenter \<Rightarrow> int list \<Rightarrow> int" where
  "find_optimal_transpose a tokens =
     (case collect_pitches a tokens [] of
        [] \<Rightarrow> 0
      | p # ps \<Rightarrow>
          (let current_min = fold min ps p;
               current_max = fold max ps p;
               current_center = (current_min + current_max) div 2;
               optimal_transpose = mid_pitch a - current_center
           in if current_min + optimal_transpose < min_pitch a then min_pitch a - current_min
              else if current_max + optimal_transpose > max_pitch a then max_pitch a - current_max
              else optimal_transpose))"

subsection \<open>Transposition\<close>

text \<open>The loop of \<open>transpose_tokens\<close> with its accumulator \<open>result\<close>; each
  \<open>return None\<close> leaves the loop at once and drops the accumulator.\<close>

fun transpose_loop :: "augmenter \<Rightarrow> int \<Rightarrow> int list \<Rightarrow> int list \<Rightarrow> int list option" where
  "transpose_loop a transpose_steps [] result = Some result"
| "transpose_loop a transpose_steps (token # rest) result =
     (case token_to_info a token of
        Some (Pitch v) \<Rightarrow>
          (let new_pitch = v + transpose_steps in
           if new_pitch < min_pitch a \<or> new_pitch > max_pitch a then None
           else (case map_of (vocab a) (''Pitch_'' @ str_int new_pitch) of
                   Some new_token \<Rightarrow> transpose_loop a transpose_steps rest (result @ [new_token])
                 | None \<Rightarrow> None))
      | Some (DrumPitch v) \<Rightarrow> transpose_loop a transpose_steps rest (result @ [token])
      | Some (Chord c) \<Rightarrow> transpose_loop a transpose_steps rest (result @ [token])
      | Some Other \<Rightarrow> transpose_loop a transpose_steps rest (result @ [token])
      | None \<Rightarrow> transpose_loop a transpose_steps rest (result @ [token]))"

definition transpose_tokens :: "augmenter \<Rightarrow> int list \<Rightarrow> int \<Rightarrow> int list option" where
  "transpose_tokens a tokens transpose_steps =
     (if transpose_steps = 0 then Some tokens
      else transpose_loop a transpose_steps tokens [])"

subsection \<open>Batch augmentation\<close>

fun augment_loop ::
  "augmenter \<Rightarrow> int list \<Rightarrow> int \<Rightarrow> int list \<Rightarrow> (int \<times> int list) list \<Rightarrow> (int \<times> int list) list" where
  "augment_loop a tokens optimal_transpose [] results = results"
| "augment_loop a tokens optimal_transpose (transpose_steps # rest) results =
     (let actual_transpose = optimal_transpose + transpose_steps in
      case transpose_tokens a tokens actual_transpose of
        Some transposed_tokens \<Rightarrow>
          augment_loop a tokens optimal_transpose rest (results @ [(actual_transpose, transposed_tokens)])
      | None \<Rightarrow> augment_loop a tokens optimal_transpose rest results)"

definition augment_sequence :: "augmenter \<Rightarrow> int list \<Rightarrow> (int \<times> int list) list" where
  "augment_sequence a tokens =
     augment_loop a tokens (find_optimal_transpose a tokens) (transpose_values a) []"

subsection \<open>Notions used to state the properties\<close>

text \<open>What one pass of the loop of \<open>transpose_tokens\<close> emits for one token: \<open>t'\<close> is
  the token that replaces \<open>t\<close> under a shift of \<open>k\<close> semitones.\<close>

definition transposed_token :: "augmenter \<Rightarrow> int \<Rightarrow> int \<Rightarrow> int \<Rightarrow> bool" where
  "transposed_token a k t t' =
     (case token_to_info a t of
        Some (Pitch v) \<Rightarrow>
          min_pitch a \<le> v + k \<and> v + k \<le> max_pitch a \<and>
          map_of (vocab a) (''Pitch_'' @ str_int (v + k)) = Some t'
      | _ \<Rightarrow> t' = t)"

text \<open>The pitch values that \<open>find_optimal_transpose\<close> collects, said as the
  specification says it: the values of all tokens classified as pitch, in order.\<close>

definition pitch_value_of :: "augmenter \<Rightarrow> int \<Rightarrow> int option" where
  "pitch_value_of a token = (case token_to_info a token of Some (Pitch v) \<Rightarrow> Some v | _ \<Rightarrow> None)"

definition pitch_values :: "augmenter \<Rightarrow> int list \<Rightarrow> int list" where
  "pitch_values a tokens = List.map_filter (pitch_value_of a) tokens"

text \<open>The piece of a token string that follows a prefix \<open>p\<close> and ends before the next
  underscore, or at the end of the string.\<close>

definition piece_after :: "string \<Rightarrow> string \<Rightarrow> string" where
  "piece_after p token = takeWhile (\<lambda>c. c \<noteq> CHR ''_'') (drop (length p) token)"

subsection \<open>Concrete vocabularies\<close>

text \<open>The vocabulary of the end-to-end example of the specification with
  \<open>transpose_range = (-1, 1)\<close>, and the engine that \<open>__init__\<close> builds from it.\<close>

definition example_vocab :: "(string \<times> int) list" where
  "example_vocab =
     [(''Pitch_60'', 0), (''Pitch_61'', 1), (''Pitch_59'', 2), (''Chord_maj'', 3), (''Bar_None'', 4)]"

definition example_augmenter :: augmenter where
  "example_augmenter =
     \<lparr> transpose_range = (- 1, 1),
       transpose_values = [- 1, 0, 1],
       num_augmentations = 3,
       vocab = example_vocab,
       token_to_info = [0 \<mapsto> Pitch 60, 1 \<mapsto> Pitch 61, 2 \<mapsto> Pitch 59, 3 \<mapsto> Chord ''maj'', 4 \<mapsto> Other],
       min_pitch = 21,
       max_pitch = 109,
       mid_pitch = 65 \<rparr>"


text \<open>A vocabulary whose pitches 10 and 120 lie outside 21..109 and further apart than
  88 semitones, and one with a drum pitch and the names needed to shift \<open>Pitch_60\<close> by 4
  and by 5.\<close>

definition wide_vocab :: "(string \<times> int) list" where
  "wide_vocab = [(''Pitch_10'', 0), (''Pitch_120'', 1), (''Pitch_21'', 2)]"

definition wide_augmenter :: augmenter where
  "wide_augmenter =
     \<lparr> transpose_range = (- 5, 6),
       transpose_values = [- 5, - 4, - 3, - 2, - 1, 0, 1, 2, 3, 4, 5, 6],
       num_augmentations = 12,
       vocab = wide_vocab,
       token_to_info = [0 \<mapsto> Pitch 10, 1 \<mapsto> Pitch 120, 2 \<mapsto> Pitch 21],
       min_pitch = 21,
       max_pitch = 109,
       mid_pitch = 65 \<rparr>"

definition drum_vocab :: "(string \<times> int) list" where
  "drum_vocab =
     [(''Pitch_60'', 0), (''Pitch_64'', 1), (''Pitch_65'', 2), (''PitchDrum_36'', 3),
      (''Chord_maj'', 4), (''Bar_None'', 5)]"

definition drum_augmenter :: augmenter where
  "drum_augmenter =
     \<lparr> transpose_range = (- 1, 1),
       transpose_values = [- 1, 0, 1],
       num_augmentations = 3,
       vocab = drum_vocab,
       token_to_info = [0 \<mapsto> Pitch 60, 1 \<mapsto> Pitch 64, 2 \<mapsto> Pitch 65, 3 \<mapsto> DrumPitch 36,
                        4 \<mapsto> Chord ''maj'', 5 \<mapsto> Other],
       min_pitch = 21,
       max_pitch = 109,
       mid_pitch = 65 \<rparr>"

text \<open>A vocabulary with unique ids in which two names carry the pitch value 60.\<close>

definition alias_vocab :: "(string \<times> int) list" where
  "alias_vocab = [(''Pitch_60_b'', 0), (''Pitch_60'', 1), (''Pitch_61'', 2)]"

definition alias_augmenter :: augmenter where
  "alias_augmenter =
     \<lparr> transpose_range = (- 5, 6),
       transpose_values = [- 5, - 4, - 3, - 2, - 1, 0, 1, 2, 3, 4, 5, 6],
       num_augmentations = 12,
       vocab = alias_vocab,
       token_to_info = [0 \<mapsto> Pitch 60, 1 \<mapsto> Pitch 60, 2 \<mapsto> Pitch 61],
       min_pitch = 21,
       max_pitch = 109,
       mid_pitch = 65 \<rparr>"

text \<open>A vocabulary whose names have a second underscore or padding in the value.\<close>

definition underscore_vocab :: "(string \<times> int) list" where
  "underscore_vocab =
     [(''Pitch_6_0'', 0), (''PitchDrum_ 36'', 1), (''Chord_maj_7'', 2), (''Bar_None'', 3)]"

definition underscore_augmenter :: augmenter where
  "underscore_augmenter =
     \<lparr> transpose_range = (- 5, 6),
       transpose_values = [- 5, - 4, - 3, - 2, - 1, 0, 1, 2, 3, 4, 5, 6],
       num_augmentations = 12,
       vocab = underscore_vocab,
       token_to_info = [0 \<mapsto> Pitch 6, 1 \<mapsto> DrumPitch 36, 2 \<mapsto> Chord ''maj'', 3 \<mapsto> Other],
       min_pitch = 21,
       max_pitch = 109,
       mid_pitch = 65 \<rparr>"

section \<open>Auxiliary facts\<close>

lemma digit_char_cases:
  assumes "d < 10"
  shows "is_digit (digit_char d)" and "digit_val (digit_char d) = d"
    and "\<not> is_space (digit_char d)" and "digit_char d \<noteq> CHR ''_''"
    and "digit_char d \<noteq> CHR ''-''" and "digit_char d \<noteq> CHR ''+''"
proof -
  from assms have "d \<in> {0, 1, 2, 3, 4, 5, 6, 7, 8, 9}" by auto
  then show "is_digit (digit_char d)" and "digit_val (digit_char d) = d"
    and "\<not> is_space (digit_char d)" and "digit_char d \<noteq> CHR ''_''"
    and "digit_char d \<noteq> CHR ''-''" and "digit_char d \<noteq> CHR ''+''"
    by (auto simp: digit_char_def is_digit_def digit_val_def is_space_def)
qed

declare str_nat.simps [simp del]
declare py_range.simps [simp del]

lemma dropWhile_none: "\<forall>c\<in>set xs. \<not> P c \<Longrightarrow> dropWhile P xs = xs"
  by (cases xs) auto
lemma str_nat_nonempty: "str_nat n \<noteq> []"
  by (subst str_nat.simps) simp

lemma str_nat_chars: "c \<in> set (str_nat n) \<Longrightarrow> \<exists>d<10. c = digit_char d"
proof (induction n arbitrary: c rule: str_nat.induct)
  case (1 n)
  show ?case
  proof (cases "n < 10")
    case True
    with "1.prems" have "c = digit_char n" by (subst (asm) str_nat.simps) simp
    with True show ?thesis by blast
  next
    case False
    from "1.prems" have "c \<in> set (str_nat (n div 10)) \<or> c = digit_char (n mod 10)"
      using False by (subst (asm) str_nat.simps) auto
    then show ?thesis
    proof
      assume "c \<in> set (str_nat (n div 10))"
      with "1.IH" False show ?thesis by blast
    next
      assume "c = digit_char (n mod 10)"
      moreover have "n mod 10 < 10" by simp
      ultimately show ?thesis by blast
    qed
  qed
qed

lemma digits_val_snoc: "digits_val (ds @ [c]) = 10 * digits_val ds + digit_val c"
  by (simp add: digits_val_def)

lemma digits_val_str_nat: "digits_val (str_nat n) = n"
proof (induction n rule: str_nat.induct)
  case (1 n)
  show ?case
  proof (cases "n < 10")
    case True
    then show ?thesis
      by (subst str_nat.simps) (simp add: digits_val_def digit_char_cases)
  next
    case False
    have "digits_val (str_nat n) = 10 * digits_val (str_nat (n div 10)) + digit_val (digit_char (n mod 10))"
      using False by (subst str_nat.simps) (simp add: digits_val_snoc)
    also have "\<dots> = 10 * (n div 10) + n mod 10"
      using "1.IH" False by (simp add: digit_char_cases)
    finally show ?thesis by simp
  qed
qed

lemma strip_no_space:
  assumes "\<forall>c\<in>set s. \<not> is_space c"
  shows "strip s = s"
  using assms by (simp add: strip_def dropWhile_none)

lemma str_nat_char_props:
  assumes "c \<in> set (str_nat n)"
  shows "is_digit c" and "\<not> is_space c" and "c \<noteq> CHR ''_''" and "c \<noteq> CHR ''-''" and "c \<noteq> CHR ''+''"
proof -
  from assms obtain d where d: "d < 10" "c = digit_char d"
    using str_nat_chars by blast
  show "is_digit c" and "\<not> is_space c" and "c \<noteq> CHR ''_''" and "c \<noteq> CHR ''-''" and "c \<noteq> CHR ''+''"
    using d digit_char_cases [of d] by simp_all
qed

lemma grouped_digits: "ds \<noteq> [] \<Longrightarrow> list_all is_digit ds \<Longrightarrow> grouped ds"
proof (induction ds rule: grouped.induct)
  case (3 c d r)
  from "3.prems" have "is_digit d" by simp
  then have "d \<noteq> CHR ''_''" by (auto simp: is_digit_def)
  with 3 show ?case by simp
qed simp_all

lemma py_int_digits:
  assumes "ds \<noteq> []" and "\<forall>c\<in>set ds. is_digit c \<and> \<not> is_space c \<and> c \<noteq> CHR ''-'' \<and> c \<noteq> CHR ''+''"
  shows "py_int ds = Inr (int (digits_val ds))"
proof -
  have "strip ds = ds" using assms(2) by (simp add: strip_no_space)
  moreover have "hd ds \<in> set ds" using assms(1) by simp
  then have "hd ds \<noteq> CHR ''-''" "hd ds \<noteq> CHR ''+''" using assms(2) by blast+
  moreover have all_d: "list_all is_digit ds" using assms(2) by (simp add: list_all_iff)
  moreover from assms(1) all_d have "grouped ds" by (rule grouped_digits)
  moreover from all_d have "filter is_digit ds = ds" by (simp add: list_all_iff)
  ultimately show ?thesis by (simp add: py_int_def)
qed

lemma py_int_minus_digits:
  assumes "ds \<noteq> []" and "\<forall>c\<in>set ds. is_digit c \<and> \<not> is_space c"
  shows "py_int (CHR ''-'' # ds) = Inr (- int (digits_val ds))"
proof -
  have "\<not> is_space CHR ''-''" by (simp add: is_space_def)
  with assms(2) have "strip (CHR ''-'' # ds) = CHR ''-'' # ds" by (simp add: strip_no_space)
  moreover have all_d: "list_all is_digit ds" using assms(2) by (simp add: list_all_iff)
  moreover from assms(1) all_d have "grouped ds" by (rule grouped_digits)
  moreover from all_d have "filter is_digit ds = ds" by (simp add: list_all_iff)
  ultimately show ?thesis by (simp add: py_int_def)
qed

lemma py_int_str_int: "py_int (str_int i) = Inr i"
proof (cases "i < 0")
  case False
  have "py_int (str_nat (nat i)) = Inr (int (digits_val (str_nat (nat i))))"
    by (rule py_int_digits) (auto simp: str_nat_nonempty str_nat_char_props)
  with False show ?thesis by (simp add: str_int_def digits_val_str_nat)
next
  case True
  have "py_int (CHR ''-'' # str_nat (nat (- i))) = Inr (- int (digits_val (str_nat (nat (- i)))))"
    by (rule py_int_minus_digits) (auto simp: str_nat_nonempty str_nat_char_props)
  with True show ?thesis by (simp add: str_int_def digits_val_str_nat)
qed

lemma split_on_no_sep: "sep \<notin> set s \<Longrightarrow> split_on sep s = [s]"
  by (induction s) auto

lemma str_int_no_underscore: "CHR ''_'' \<notin> set (str_int i)"
  using str_nat_char_props(3) by (auto simp: str_int_def)

lemma classify_pitch_name: "classify (''Pitch_'' @ str_int i) = Inr (Pitch i)"
  by (simp add: classify_def startswith_def item_def split_on_no_sep str_int_no_underscore py_int_str_int)

lemma build_untouched:
  "build_token_to_info items m = Inr tab \<Longrightarrow> i \<notin> snd ` set items \<Longrightarrow> tab i = m i"
  by (induction items arbitrary: m) (auto split: sum.splits)

lemma build_lookup_source:
  "build_token_to_info items m = Inr tab \<Longrightarrow> tab i = Some info \<Longrightarrow>
     m i = Some info \<or> (\<exists>s. (s, i) \<in> set items \<and> classify s = Inr info)"
proof (induction items arbitrary: m)
  case Nil
  then show ?case by simp
next
  case (Cons x items)
  obtain s j where x: "x = (s, j)" by (cases x)
  from Cons.prems(1) obtain info' where c: "classify s = Inr info'"
    and b: "build_token_to_info items (m(j \<mapsto> info')) = Inr tab"
    by (auto simp: x split: sum.splits)
  from Cons.IH [OF b Cons.prems(2)]
  show ?case using c by (auto simp: x split: if_splits)
qed

lemma build_classifies:
  "build_token_to_info items m = Inr tab \<Longrightarrow> (s, i) \<in> set items \<Longrightarrow> \<exists>info. classify s = Inr info"
  by (induction items arbitrary: m) (auto split: sum.splits)

lemma build_unique_id:
  "build_token_to_info items m = Inr tab \<Longrightarrow> distinct (map snd items) \<Longrightarrow> (s, i) \<in> set items \<Longrightarrow>
     \<exists>info. classify s = Inr info \<and> tab i = Some info"
proof (induction items arbitrary: m)
  case Nil
  then show ?case by simp
next
  case (Cons x items)
  obtain s' j where x: "x = (s', j)" by (cases x)
  from Cons.prems(1) obtain info' where c: "classify s' = Inr info'"
    and b: "build_token_to_info items (m(j \<mapsto> info')) = Inr tab"
    by (auto simp: x split: sum.splits)
  show ?case
  proof (cases "(s, i) \<in> set items")
    case True
    from Cons.prems(2) have "distinct (map snd items)" by simp
    from Cons.IH [OF b this True] show ?thesis .
  next
    case False
    with Cons.prems(3) have eq: "s' = s" "j = i" by (auto simp: x)
    from Cons.prems(2) have "i \<notin> snd ` set items" by (simp add: x eq)
    from build_untouched [OF b this] show ?thesis using c by (simp add: eq)
  qed
qed

lemma init_fields:
  assumes "augmenter_init v r = Inr a"
  shows "min_pitch a = 21" and "max_pitch a = 109" and "mid_pitch a = 65" and "vocab a = v"
    and "transpose_values a = py_range (fst r) (snd r + 1)"
    and "build_token_to_info v Map.empty = Inr (token_to_info a)"
  using assms by (auto simp: augmenter_init_def Let_def split: sum.splits)

lemma init_pitch_entry:
  assumes "augmenter_init v r = Inr a" and "distinct (map snd v)"
    and "map_of v (''Pitch_'' @ str_int p) = Some t"
  shows "token_to_info a t = Some (Pitch p)"
proof -
  from assms(3) have "(''Pitch_'' @ str_int p, t) \<in> set v" by (rule map_of_SomeD)
  from build_unique_id [OF init_fields(6) [OF assms(1)] assms(2) this]
  obtain info where "classify (''Pitch_'' @ str_int p) = Inr info" and "token_to_info a t = Some info"
    by blast
  with classify_pitch_name [of p] show ?thesis by simp
qed

lemma transpose_loop_Some_iff:
  "transpose_loop a k ts acc = Some r \<longleftrightarrow>
     (\<exists>r'. r = acc @ r' \<and> list_all2 (transposed_token a k) ts r')"
proof (induction ts arbitrary: acc r)
  case Nil
  then show ?case by auto
next
  case (Cons t ts)
  show ?case
  proof (cases "token_to_info a t")
    case None
    then show ?thesis
      by (simp add: Cons.IH transposed_token_def list_all2_Cons1) blast
  next
    case (Some info)
    then show ?thesis
      by (cases info; simp add: Cons.IH transposed_token_def list_all2_Cons1 Let_def split: option.splits; blast)
  qed
qed

lemma transpose_loop_None_iff:
  "transpose_loop a k ts acc = None \<longleftrightarrow>
     (\<exists>t\<in>set ts. \<exists>v. token_to_info a t = Some (Pitch v) \<and>
        (v + k < min_pitch a \<or> v + k > max_pitch a \<or>
         map_of (vocab a) (''Pitch_'' @ str_int (v + k)) = None))"
proof (induction ts arbitrary: acc)
  case Nil
  then show ?case by simp
next
  case (Cons t ts)
  show ?case
  proof (cases "token_to_info a t")
    case None
    then show ?thesis by (simp add: Cons.IH)
  next
    case (Some info)
    then show ?thesis
      by (cases info) (auto simp: Cons.IH Let_def split: option.splits)
  qed
qed

lemma transposed_token_back:
  assumes init: "augmenter_init vocab_items rng = Inr a"
    and ids: "distinct (map snd vocab_items)"
    and one: "\<forall>i j v. token_to_info a i = Some (Pitch v) \<and> token_to_info a j = Some (Pitch v) \<longrightarrow> i = j"
    and fwd: "transposed_token a k t t'" and bwd: "transposed_token a (- k) t' t''"
  shows "t'' = t"
proof (cases "\<exists>v. token_to_info a t = Some (Pitch v)")
  case True
  then obtain v where v: "token_to_info a t = Some (Pitch v)" ..
  with fwd have "map_of vocab_items (''Pitch_'' @ str_int (v + k)) = Some t'"
    by (simp add: transposed_token_def init_fields(4) [OF init])
  then have t': "token_to_info a t' = Some (Pitch (v + k))"
    by (rule init_pitch_entry [OF init ids])
  with bwd have "map_of vocab_items (''Pitch_'' @ str_int v) = Some t''"
    by (simp add: transposed_token_def init_fields(4) [OF init])
  then have "token_to_info a t'' = Some (Pitch v)"
    by (rule init_pitch_entry [OF init ids])
  with v one show ?thesis by blast
next
  case False
  with fwd have "t' = t"
    by (auto simp: transposed_token_def split: option.splits token_info.splits)
  with False bwd show ?thesis
    by (auto simp: transposed_token_def split: option.splits token_info.splits)
qed

text \<open>Unfolding rules that evaluate the string operations on literals.\<close>

lemmas py_eval =
  classify_def startswith_def item_def py_int_def strip_def is_space_def is_digit_def
  digits_val_def digit_val_def str_int_def str_nat.simps digit_char_def py_range.simps

lemma example_init: "augmenter_init example_vocab (- 1, 1) = Inr example_augmenter"
  by (simp add: augmenter_init_def example_vocab_def example_augmenter_def py_eval)

lemma example_up: "transpose_tokens example_augmenter [4, 0, 3] 1 = Some [4, 1, 3]"
  by (simp add: transpose_tokens_def example_augmenter_def example_vocab_def py_eval)

lemma example_down: "transpose_tokens example_augmenter [4, 1, 3] (- 1) = Some [4, 0, 3]"
  by (simp add: transpose_tokens_def example_augmenter_def example_vocab_def py_eval)

lemma example_gap: "transpose_tokens example_augmenter [4, 0, 3] 5 = None"
  by (simp add: transpose_tokens_def example_augmenter_def example_vocab_def py_eval)


lemma wide_init: "augmenter_init wide_vocab (- 5, 6) = Inr wide_augmenter"
  by (simp add: augmenter_init_def wide_vocab_def wide_augmenter_def py_eval)

lemma drum_init: "augmenter_init drum_vocab (- 1, 1) = Inr drum_augmenter"
  by (simp add: augmenter_init_def drum_vocab_def drum_augmenter_def py_eval)

lemma collect_pitches_eq: "collect_pitches a tokens acc = acc @ pitch_values a tokens"
proof (induction tokens arbitrary: acc)
  case Nil
  show ?case by (simp add: pitch_values_def)
next
  case (Cons t ts)
  have step: "pitch_values a (t # ts) =
      (case pitch_value_of a t of None \<Rightarrow> pitch_values a ts | Some v \<Rightarrow> v # pitch_values a ts)"
    by (simp add: pitch_values_def split: option.splits)
  show ?case
    by (simp add: Cons.IH step pitch_value_of_def split: option.splits token_info.splits)
qed

lemma set_map_filter_iff: "y \<in> set (List.map_filter f xs) \<longleftrightarrow> (\<exists>x\<in>set xs. f x = Some y)"
  by (induction xs) (auto split: option.splits)

lemma pitch_values_mem:
  "v \<in> set (pitch_values a tokens) \<longleftrightarrow> (\<exists>t\<in>set tokens. token_to_info a t = Some (Pitch v))"
proof -
  have "pitch_value_of a t = Some v \<longleftrightarrow> token_to_info a t = Some (Pitch v)" for t
    by (simp add: pitch_value_of_def split: option.splits token_info.splits)
  then show ?thesis
    by (simp add: pitch_values_def set_map_filter_iff)
qed

lemma fold_min_Min: "fold min ps p = Min (set (p # ps))"
  by (rule Min.set_eq_fold [symmetric])

lemma fold_max_Max: "fold max ps p = Max (set (p # ps))"
  by (rule Max.set_eq_fold [symmetric])

lemma find_optimal_transpose_Min_Max:
  "find_optimal_transpose a tokens =
     (if pitch_values a tokens = [] then 0
      else let current_min = Min (set (pitch_values a tokens));
               current_max = Max (set (pitch_values a tokens));
               current_center = (current_min + current_max) div 2;
               candidate = mid_pitch a - current_center
           in if current_min + candidate < min_pitch a then min_pitch a - current_min
              else if current_max + candidate > max_pitch a then max_pitch a - current_max
              else candidate)"
proof (cases "pitch_values a tokens")
  case Nil
  then show ?thesis by (simp add: find_optimal_transpose_def collect_pitches_eq)
next
  case (Cons p ps)
  show ?thesis
    by (simp add: find_optimal_transpose_def collect_pitches_eq Cons Let_def
        fold_min_Min fold_max_Max)
qed

lemma example_pitch_values: "pitch_values example_augmenter [4, 0, 1, 3] = [60, 61]"
  by (simp add: pitch_values_def pitch_value_of_def example_augmenter_def)

lemma optimal_in_range_aux:
  assumes init: "augmenter_init vocab_items rng = Inr a"
    and span: "\<forall>v\<in>set (pitch_values a tokens). \<forall>w\<in>set (pitch_values a tokens). w - v \<le> 88"
    and v: "v \<in> set (pitch_values a tokens)"
  shows "21 \<le> v + find_optimal_transpose a tokens \<and> v + find_optimal_transpose a tokens \<le> 109"
proof -
  let ?ps = "pitch_values a tokens"
  let ?mn = "Min (set ?ps)" and ?mx = "Max (set ?ps)"
  from v have ne: "?ps \<noteq> []" by auto
  then have "?mn \<in> set ?ps" "?mx \<in> set ?ps" by (simp_all add: Min_in Max_in)
  with span have width: "?mx - ?mn \<le> 88" by blast
  from v have bounds: "?mn \<le> v" "v \<le> ?mx" by simp_all
  define c where "c = 65 - (?mn + ?mx) div 2"
  have opt: "find_optimal_transpose a tokens =
      (if ?mn + c < 21 then 21 - ?mn else if ?mx + c > 109 then 109 - ?mx else c)"
    using ne by (simp add: find_optimal_transpose_Min_Max init_fields(1-3) [OF init] Let_def c_def)
  show ?thesis
    unfolding opt using width bounds by (auto split: if_splits)
qed

lemma example_optimal: "find_optimal_transpose example_augmenter [4, 0, 3] = 5"
  by (simp add: find_optimal_transpose_def example_augmenter_def)

lemma wide_optimal: "find_optimal_transpose wide_augmenter [0, 1] = 11"
  by (simp add: find_optimal_transpose_def wide_augmenter_def)

lemma wide_fails_at_optimal: "transpose_tokens wide_augmenter [0, 1] 11 = None"
  by (simp add: transpose_tokens_def wide_augmenter_def wide_vocab_def py_eval)

lemma wide_always_fails:
  assumes "steps \<noteq> 0"
  shows "transpose_tokens wide_augmenter [0, 1] steps = None"
proof -
  have "\<exists>t\<in>set [0, 1]. \<exists>v. token_to_info wide_augmenter t = Some (Pitch v) \<and>
          (v + steps < min_pitch wide_augmenter \<or> v + steps > max_pitch wide_augmenter \<or>
           map_of (vocab wide_augmenter) (''Pitch_'' @ str_int (v + steps)) = None)"
  proof (cases "steps < 11")
    case True
    have "token_to_info wide_augmenter 0 = Some (Pitch 10)" by (simp add: wide_augmenter_def)
    moreover from True have "10 + steps < min_pitch wide_augmenter" by (simp add: wide_augmenter_def)
    ultimately show ?thesis by auto
  next
    case False
    have "token_to_info wide_augmenter 1 = Some (Pitch 120)" by (simp add: wide_augmenter_def)
    moreover from False have "120 + steps > max_pitch wide_augmenter" by (simp add: wide_augmenter_def)
    ultimately show ?thesis by auto
  qed
  with assms show ?thesis
    by (simp only: transpose_tokens_def transpose_loop_None_iff if_False)
qed

lemma drum_optimal: "find_optimal_transpose drum_augmenter [5, 0, 3, 4] = 5"
  by (simp add: find_optimal_transpose_def drum_augmenter_def)

lemma drum_pitch_values: "pitch_values drum_augmenter [5, 0, 3, 4] = [60]"
  by (simp add: pitch_values_def pitch_value_of_def drum_augmenter_def)

lemma drum_at_4: "transpose_tokens drum_augmenter [5, 0, 3, 4] 4 = Some [5, 1, 3, 4]"
  by (simp add: transpose_tokens_def drum_augmenter_def drum_vocab_def py_eval)

lemma drum_at_5: "transpose_tokens drum_augmenter [5, 0, 3, 4] 5 = Some [5, 2, 3, 4]"
  by (simp add: transpose_tokens_def drum_augmenter_def drum_vocab_def py_eval)

lemma drum_at_6: "transpose_tokens drum_augmenter [5, 0, 3, 4] 6 = None"
  by (simp add: transpose_tokens_def drum_augmenter_def drum_vocab_def py_eval)

lemma py_range_upto: "py_range start stop = [start..stop - 1]"
proof (induction start stop rule: py_range.induct)
  case (1 start stop)
  show ?case
  proof (cases "start < stop")
    case True
    then have "[start..stop - 1] = start # [start + 1..stop - 1]"
      by (simp add: upto_rec1)
    with True "1.IH" show ?thesis by (subst py_range.simps) simp
  next
    case False
    then show ?thesis by (subst py_range.simps) simp
  qed
qed

lemma init_transpose_values:
  assumes "augmenter_init vocab_items (low, high) = Inr a"
  shows "transpose_values a = [low..high]"
  using init_fields(5) [OF assms] by (simp add: py_range_upto)

lemma augment_loop_eq:
  "augment_loop a tokens opt ds acc =
     acc @ List.map_filter
             (\<lambda>d. map_option (Pair (opt + d)) (transpose_tokens a tokens (opt + d))) ds"
  by (induction ds arbitrary: acc) (auto simp: Let_def split: option.splits)

lemma map_fst_map_filter_Pair:
  "map fst (List.map_filter (\<lambda>d. map_option (Pair (g d)) (f d)) ds) =
     map g (filter (\<lambda>d. f d \<noteq> None) ds)"
  by (induction ds) (auto split: option.splits)

lemma augment_offsets:
  "map fst (augment_sequence a tokens) =
     map ((+) (find_optimal_transpose a tokens))
       (filter (\<lambda>d. transpose_tokens a tokens (find_optimal_transpose a tokens + d) \<noteq> None)
          (transpose_values a))"
  by (simp add: augment_sequence_def augment_loop_eq map_fst_map_filter_Pair)

lemma drum_augment:
  "augment_sequence drum_augmenter [5, 0, 3, 4] = [(4, [5, 1, 3, 4]), (5, [5, 2, 3, 4])]"
proof -
  have "transpose_values drum_augmenter = [- 1, 0, 1]" by (simp add: drum_augmenter_def)
  then show ?thesis
    by (simp add: augment_sequence_def drum_optimal drum_at_4 drum_at_5 drum_at_6)
qed

lemma split_on_nonempty: "split_on sep s \<noteq> []"
  by (induction s) (auto split: list.splits)

lemma split_on_hd: "hd (split_on sep s) = takeWhile (\<lambda>c. c \<noteq> sep) s"
  by (induction s) (auto simp: split_on_nonempty split: list.splits)

lemma split_on_prefix: "sep \<notin> set q \<Longrightarrow> split_on sep (q @ sep # rest) = q # split_on sep rest"
  by (induction q) auto

lemma second_piece:
  assumes "startswith token (q @ [CHR ''_''])" and "CHR ''_'' \<notin> set q"
  shows "item (split_on CHR ''_'' token) 1 = Inr (piece_after (q @ [CHR ''_'']) token)"
proof -
  define rest where "rest = drop (length q + 1) token"
  from assms(1) have "take (length q + 1) token = q @ [CHR ''_'']"
    by (simp add: startswith_def)
  then have "token = (q @ [CHR ''_'']) @ rest"
    unfolding rest_def by (metis append_take_drop_id)
  then have token: "token = q @ CHR ''_'' # rest" by simp
  have "split_on CHR ''_'' token = q # split_on CHR ''_'' rest"
    unfolding token using assms(2) by (rule split_on_prefix)
  moreover obtain w ws where "split_on CHR ''_'' rest = w # ws"
    using split_on_nonempty [of "CHR ''_''" rest] by (cases "split_on CHR ''_'' rest") auto
  moreover from this have "w = takeWhile (\<lambda>c. c \<noteq> CHR ''_'') rest"
    using split_on_hd [of "CHR ''_''" rest] by simp
  ultimately show ?thesis
    by (simp add: item_def piece_after_def rest_def)
qed

lemma classify_cases:
  "classify token =
     (if startswith token ''Pitch_'' \<and> \<not> startswith token ''PitchDrum_'' then
        (case py_int (piece_after ''Pitch_'' token) of Inl e \<Rightarrow> Inl e | Inr n \<Rightarrow> Inr (Pitch n))
      else if startswith token ''PitchDrum_'' then
        (case py_int (piece_after ''PitchDrum_'' token) of Inl e \<Rightarrow> Inl e | Inr n \<Rightarrow> Inr (DrumPitch n))
      else if startswith token ''Chord_'' then Inr (Chord (piece_after ''Chord_'' token))
      else Inr Other)"
proof -
  have p: "item (split_on CHR ''_'' token) 1 = Inr (piece_after ''Pitch_'' token)"
    if "startswith token ''Pitch_''"
    using second_piece [of token "''Pitch''"] that by simp
  have d: "item (split_on CHR ''_'' token) 1 = Inr (piece_after ''PitchDrum_'' token)"
    if "startswith token ''PitchDrum_''"
    using second_piece [of token "''PitchDrum''"] that by simp
  have c: "item (split_on CHR ''_'' token) 1 = Inr (piece_after ''Chord_'' token)"
    if "startswith token ''Chord_''"
    using second_piece [of token "''Chord''"] that by simp
  show ?thesis
    unfolding classify_def using p d c by (simp split: sum.splits)
qed

lemma piece_after_whole:
  "CHR ''_'' \<notin> set (drop (length p) token) \<Longrightarrow> piece_after p token = drop (length p) token"
  by (auto simp: piece_after_def takeWhile_eq_all_conv)

lemma underscore_init: "augmenter_init underscore_vocab (- 5, 6) = Inr underscore_augmenter"
  by (simp add: augmenter_init_def underscore_vocab_def underscore_augmenter_def py_eval)

text \<open>What \<open>py_int\<close> skips and what it refuses, on the codes where the whitespace of
  \<open>int\<close> and that of \<open>str.strip\<close> part, and on signs, zeros and underscores.\<close>

lemma py_int_examples:
  "py_int [CHR 0x1C, CHR ''6'', CHR ''0''] = Inl ValueError
   \<and> py_int [CHR 0xA0, CHR ''6'', CHR ''0''] = Inr 60
   \<and> py_int [CHR ''6'', CHR ''0'', CHR 0x85] = Inr 60
   \<and> py_int [CHR ''6'', CHR 0xA0, CHR ''0''] = Inl ValueError
   \<and> py_int '' -12 '' = Inr (- 12)
   \<and> py_int ''+ 5'' = Inl ValueError
   \<and> py_int ''060'' = Inr 60
   \<and> py_int ''1_2_3'' = Inr 123
   \<and> py_int ''6__0'' = Inl ValueError
   \<and> py_int ''60_'' = Inl ValueError
   \<and> py_int [] = Inl ValueError"
  by (simp add: py_eval)

section \<open>Properties\<close>

text \<open>
  C8. Identity law: for every token sequence, transposing by 0 steps succeeds and returns
  a sequence equal to the input.
\<close>

theorem transpose_zero_identity: "transpose_tokens a tokens 0 = Some tokens"
  by (simp add: transpose_tokens_def)

text \<open>
  C1. For an engine built by \<open>__init__\<close> and every shift other than 0, \<open>transpose_tokens\<close>
  returns \<open>None\<close> exactly when the sequence holds a token classified as pitch whose
  shifted value lies outside 21..109 or whose name \<open>Pitch_<value + steps>\<close> is not a key
  of the vocabulary. In particular a pitch token of value 21 fails under a shift of -1 and
  one of value 109 under a shift of +1. A failure is the bare value \<open>None\<close>: no part of
  the sequence is returned.
\<close>

theorem transpose_fails_iff:
  assumes "augmenter_init vocab_items rng = Inr a" and "steps \<noteq> 0"
  shows "(transpose_tokens a tokens steps = None \<longleftrightarrow>
            (\<exists>t\<in>set tokens. \<exists>v. token_to_info a t = Some (Pitch v) \<and>
               (v + steps < 21 \<or> v + steps > 109 \<or>
                map_of vocab_items (''Pitch_'' @ str_int (v + steps)) = None)))
       \<and> (steps = - 1 \<and> (\<exists>t\<in>set tokens. token_to_info a t = Some (Pitch 21))
            \<longrightarrow> transpose_tokens a tokens steps = None)
       \<and> (steps = 1 \<and> (\<exists>t\<in>set tokens. token_to_info a t = Some (Pitch 109))
            \<longrightarrow> transpose_tokens a tokens steps = None)"
proof -
  have iff: "transpose_tokens a tokens steps = None \<longleftrightarrow>
            (\<exists>t\<in>set tokens. \<exists>v. token_to_info a t = Some (Pitch v) \<and>
               (v + steps < 21 \<or> v + steps > 109 \<or>
                map_of vocab_items (''Pitch_'' @ str_int (v + steps)) = None))"
    using assms(2) init_fields(1,2,4) [OF assms(1)]
    by (simp add: transpose_tokens_def transpose_loop_None_iff)
  have low: "transpose_tokens a tokens steps = None"
    if "steps = - 1" and "\<exists>t\<in>set tokens. token_to_info a t = Some (Pitch 21)"
    using that iff by fastforce
  have high: "transpose_tokens a tokens steps = None"
    if "steps = 1" and "\<exists>t\<in>set tokens. token_to_info a t = Some (Pitch 109)"
    using that iff by fastforce
  show ?thesis
    using low high by (intro conjI impI iff) blast+
qed

theorem transpose_fails_iff_witness:
  "augmenter_init example_vocab (- 1, 1) = Inr example_augmenter \<and> (5::int) \<noteq> 0
   \<and> transpose_tokens example_augmenter [4, 0, 3] 5 = None
   \<and> token_to_info example_augmenter 0 = Some (Pitch 60)
   \<and> map_of example_vocab (''Pitch_'' @ str_int (60 + 5)) = None"
proof -
  have five: "(5::int) \<noteq> 0" by simp
  have entry: "token_to_info example_augmenter 0 = Some (Pitch 60)"
    by (simp add: example_augmenter_def)
  have absent: "map_of example_vocab (''Pitch_'' @ str_int (60 + 5)) = None"
    by (simp add: example_vocab_def py_eval)
  from transpose_fails_iff [OF example_init five, of "[4, 0, 3]"] entry absent
  have "transpose_tokens example_augmenter [4, 0, 3] 5 = None" by auto
  with example_init five entry absent show ?thesis by blast
qed

text \<open>
  C5. Whenever \<open>transpose_tokens\<close> succeeds, the output is as long as the input, and every
  token that is not classified as pitch (drum pitch, chord, other, or an id absent from the
  table) stands unchanged at its position. A failing shift returns \<open>None\<close> and nothing
  else; the input list is a value and is never changed.
\<close>

theorem transpose_frame:
  assumes "transpose_tokens a tokens steps = Some r"
  shows "length r = length tokens \<and>
         (\<forall>i<length tokens.
            (\<forall>v. token_to_info a (tokens ! i) \<noteq> Some (Pitch v)) \<longrightarrow> r ! i = tokens ! i)"
proof (cases "steps = 0")
  case True
  with assms show ?thesis by (simp add: transpose_tokens_def)
next
  case False
  with assms have all2: "list_all2 (transposed_token a steps) tokens r"
    by (simp add: transpose_tokens_def transpose_loop_Some_iff)
  then have len: "length r = length tokens" by (simp add: list_all2_lengthD)
  have "r ! i = tokens ! i"
    if "i < length tokens" and "\<forall>v. token_to_info a (tokens ! i) \<noteq> Some (Pitch v)" for i
  proof -
    from all2 that(1) have "transposed_token a steps (tokens ! i) (r ! i)"
      by (rule list_all2_nthD)
    with that(2) show ?thesis
      by (auto simp: transposed_token_def split: option.splits token_info.splits)
  qed
  with len show ?thesis by blast
qed

theorem transpose_frame_witness:
  "transpose_tokens example_augmenter [4, 0, 3] 1 = Some [4, 1, 3]
   \<and> length [4, 1, 3 :: int] = length [4, 0, 3 :: int]
   \<and> [4, 1, 3 :: int] ! 0 = [4, 0, 3] ! 0 \<and> [4, 1, 3 :: int] ! 2 = [4, 0, 3] ! 2"
  using transpose_frame [OF example_up] by (simp add: example_up)

text \<open>
  C4. Round trip. Let the ids of the vocabulary be unique and let every pitch value belong
  to at most one id of the table. If shifting \<open>seq\<close> by \<open>k\<close> succeeds with \<open>r\<close> and
  shifting \<open>r\<close> by \<open>-k\<close> succeeds, the second result is \<open>seq\<close>.
\<close>

theorem transpose_round_trip:
  assumes init: "augmenter_init vocab_items rng = Inr a"
    and ids: "distinct (map snd vocab_items)"
    and one: "\<forall>i j v. token_to_info a i = Some (Pitch v) \<and> token_to_info a j = Some (Pitch v) \<longrightarrow> i = j"
    and fwd: "transpose_tokens a seq k = Some r"
    and bwd: "transpose_tokens a r (- k) = Some s"
  shows "s = seq"
proof (cases "k = 0")
  case True
  with fwd bwd show ?thesis by (simp add: transpose_tokens_def)
next
  case False
  with fwd have f: "list_all2 (transposed_token a k) seq r"
    by (simp add: transpose_tokens_def transpose_loop_Some_iff)
  from False bwd have b: "list_all2 (transposed_token a (- k)) r s"
    by (simp add: transpose_tokens_def transpose_loop_Some_iff)
  have len: "length s = length seq"
    using f b by (simp add: list_all2_lengthD)
  have "s ! i = seq ! i" if "i < length seq" for i
  proof -
    from f that have 1: "transposed_token a k (seq ! i) (r ! i)" by (rule list_all2_nthD)
    from that f have "i < length r" by (simp add: list_all2_lengthD)
    with b have 2: "transposed_token a (- k) (r ! i) (s ! i)" by (rule list_all2_nthD)
    from transposed_token_back [OF init ids one 1 2] show ?thesis .
  qed
  with len show ?thesis by (simp add: list_eq_iff_nth_eq)
qed

theorem transpose_round_trip_witness:
  "augmenter_init example_vocab (- 1, 1) = Inr example_augmenter
   \<and> distinct (map snd example_vocab)
   \<and> transpose_tokens example_augmenter [4, 0, 3] 1 = Some [4, 1, 3]
   \<and> transpose_tokens example_augmenter [4, 1, 3] (- 1) = Some [4, 0, 3]"
proof -
  have ids: "distinct (map snd example_vocab)" by (simp add: example_vocab_def)
  have one: "\<forall>i j v. token_to_info example_augmenter i = Some (Pitch v) \<and>
                      token_to_info example_augmenter j = Some (Pitch v) \<longrightarrow> i = j"
    by (auto simp: example_augmenter_def split: if_splits)
  obtain s where s: "transpose_tokens example_augmenter [4, 1, 3] (- 1) = Some s"
    by (simp add: example_down)
  from transpose_round_trip [OF example_init ids one example_up s] have "s = [4, 0, 3]" .
  with s example_init ids example_up show ?thesis by simp
qed

text \<open>
  A remark on the round trip: unique ids alone do not give it. Two names of the vocabulary
  can carry the same pitch value, here \<open>Pitch_60_b\<close> and \<open>Pitch_60\<close>, and then the way back
  arrives at the other id.
\<close>

lemma round_trip_needs_one_id_per_pitch:
  "augmenter_init alias_vocab (- 5, 6) = Inr alias_augmenter
   \<and> distinct (map snd alias_vocab)
   \<and> transpose_tokens alias_augmenter [0] 1 = Some [2]
   \<and> transpose_tokens alias_augmenter [2] (- 1) = Some [1]"
  by (simp add: augmenter_init_def transpose_tokens_def alias_vocab_def alias_augmenter_def py_eval)

text \<open>
  C2. \<open>find_optimal_transpose\<close> returns 0 when the sequence has no token classified as
  pitch (drum pitches and chords do not count). Otherwise, with \<open>current_min\<close> and
  \<open>current_max\<close> the least and greatest collected pitch value and \<open>current_center\<close> the
  floor of their mean, it returns \<open>65 - current_center\<close>, except that it returns
  \<open>21 - current_min\<close> if that candidate puts \<open>current_min\<close> below 21, and else
  \<open>109 - current_max\<close> if it puts \<open>current_max\<close> above 109.
\<close>

theorem find_optimal_transpose_formula:
  assumes "augmenter_init vocab_items rng = Inr a"
  shows "find_optimal_transpose a tokens =
     (if pitch_values a tokens = [] then 0
      else let current_min = Min (set (pitch_values a tokens));
               current_max = Max (set (pitch_values a tokens));
               current_center = (current_min + current_max) div 2;
               candidate = 65 - current_center
           in if current_min + candidate < 21 then 21 - current_min
              else if current_max + candidate > 109 then 109 - current_max
              else candidate)"
  by (simp only: find_optimal_transpose_Min_Max init_fields(1-3) [OF assms])

theorem find_optimal_transpose_formula_witness:
  "augmenter_init example_vocab (- 1, 1) = Inr example_augmenter
   \<and> pitch_values example_augmenter [4, 0, 1, 3] = [60, 61]
   \<and> find_optimal_transpose example_augmenter [4, 0, 1, 3] = 5"
  using find_optimal_transpose_formula [OF example_init, of "[4, 0, 1, 3]"]
  by (simp add: example_init example_pitch_values)

text \<open>
  C3. The claim reads: for every sequence, the shift returned by
  \<open>find_optimal_transpose\<close> keeps every pitch token within 21..109 and \<open>transpose_tokens\<close>
  does not fail at it. Both parts fail. In the vocabulary of the specification's own example
  the name \<open>Pitch_65\<close> is missing and the shift 5 of the sequence \<open>[4, 0, 3]\<close> fails; and a
  sequence whose pitches 10 and 120 span more than 88 semitones gets the shift 11, which puts
  120 at 131.
\<close>

theorem optimal_transpose_can_fail:
  "augmenter_init example_vocab (- 1, 1) = Inr example_augmenter
   \<and> transpose_tokens example_augmenter [4, 0, 3]
        (find_optimal_transpose example_augmenter [4, 0, 3]) = None
   \<and> augmenter_init wide_vocab (- 5, 6) = Inr wide_augmenter
   \<and> token_to_info wide_augmenter 1 = Some (Pitch 120)
   \<and> 120 + find_optimal_transpose wide_augmenter [0, 1] = 131
   \<and> transpose_tokens wide_augmenter [0, 1] (find_optimal_transpose wide_augmenter [0, 1]) = None"
proof -
  have "token_to_info wide_augmenter 1 = Some (Pitch 120)" by (simp add: wide_augmenter_def)
  then show ?thesis
    by (simp add: example_init wide_init example_optimal example_gap wide_optimal
        wide_fails_at_optimal)
qed

text \<open>
  C3, as amended. If any two pitch values of the sequence differ by at most 88 (the width of
  21..109), the returned shift keeps every pitch token's value within 21..109; and
  \<open>transpose_tokens\<close> does not fail at that shift when, in addition, the shift is 0 or the
  vocabulary holds the name \<open>Pitch_<value + shift>\<close> of every pitch token of the sequence.
\<close>

theorem optimal_transpose_safe_within_span:
  assumes "augmenter_init vocab_items rng = Inr a"
    and "\<forall>v\<in>set (pitch_values a tokens). \<forall>w\<in>set (pitch_values a tokens). w - v \<le> 88"
  shows "(\<forall>t\<in>set tokens. \<forall>v. token_to_info a t = Some (Pitch v) \<longrightarrow>
            21 \<le> v + find_optimal_transpose a tokens \<and> v + find_optimal_transpose a tokens \<le> 109)
       \<and> (find_optimal_transpose a tokens = 0 \<or>
           (\<forall>t\<in>set tokens. \<forall>v. token_to_info a t = Some (Pitch v) \<longrightarrow>
              map_of vocab_items (''Pitch_'' @ str_int (v + find_optimal_transpose a tokens)) \<noteq> None)
          \<longrightarrow> transpose_tokens a tokens (find_optimal_transpose a tokens) \<noteq> None)"
proof -
  let ?opt = "find_optimal_transpose a tokens"
  have in_range: "21 \<le> v + ?opt \<and> v + ?opt \<le> 109"
    if "t \<in> set tokens" and "token_to_info a t = Some (Pitch v)" for t v
  proof -
    from that have "v \<in> set (pitch_values a tokens)" by (auto simp: pitch_values_mem)
    from optimal_in_range_aux [OF assms this] show ?thesis .
  qed
  have ok: "transpose_tokens a tokens ?opt \<noteq> None"
    if "?opt = 0 \<or> (\<forall>t\<in>set tokens. \<forall>v. token_to_info a t = Some (Pitch v) \<longrightarrow>
              map_of vocab_items (''Pitch_'' @ str_int (v + ?opt)) \<noteq> None)"
  proof (cases "?opt = 0")
    case True
    then show ?thesis by (simp add: transpose_tokens_def)
  next
    case False
    with that have present: "\<forall>t\<in>set tokens. \<forall>v. token_to_info a t = Some (Pitch v) \<longrightarrow>
              map_of vocab_items (''Pitch_'' @ str_int (v + ?opt)) \<noteq> None" by blast
    have "\<not> (\<exists>t\<in>set tokens. \<exists>v. token_to_info a t = Some (Pitch v) \<and>
        (v + ?opt < min_pitch a \<or> v + ?opt > max_pitch a \<or>
         map_of (vocab a) (''Pitch_'' @ str_int (v + ?opt)) = None))"
      using in_range present by (fastforce simp: init_fields(1,2,4) [OF assms(1)])
    with False show ?thesis
      by (simp add: transpose_tokens_def transpose_loop_None_iff)
  qed
  from in_range ok show ?thesis by blast
qed

theorem optimal_transpose_safe_within_span_witness:
  "augmenter_init drum_vocab (- 1, 1) = Inr drum_augmenter
   \<and> pitch_values drum_augmenter [5, 0, 3, 4] = [60]
   \<and> find_optimal_transpose drum_augmenter [5, 0, 3, 4] = 5
   \<and> map_of drum_vocab (''Pitch_'' @ str_int (60 + 5)) = Some 2
   \<and> transpose_tokens drum_augmenter [5, 0, 3, 4] 5 \<noteq> None"
proof -
  have span: "\<forall>v\<in>set (pitch_values drum_augmenter [5, 0, 3, 4]).
                \<forall>w\<in>set (pitch_values drum_augmenter [5, 0, 3, 4]). w - v \<le> 88"
    by (simp add: drum_pitch_values)
  have name: "map_of drum_vocab (''Pitch_'' @ str_int (60 + 5)) = Some 2"
    by (simp add: drum_vocab_def py_eval)
  have present: "\<forall>t\<in>set [5, 0, 3, 4]. \<forall>v. token_to_info drum_augmenter t = Some (Pitch v) \<longrightarrow>
      map_of drum_vocab (''Pitch_'' @ str_int (v + find_optimal_transpose drum_augmenter [5, 0, 3, 4])) \<noteq> None"
    unfolding drum_optimal using name by (simp add: drum_augmenter_def)
  from optimal_transpose_safe_within_span [OF drum_init span] present
  have "transpose_tokens drum_augmenter [5, 0, 3, 4] 5 \<noteq> None"
    by (simp only: drum_optimal) blast
  with name show ?thesis by (simp add: drum_init drum_pitch_values drum_optimal)
qed

text \<open>
  C9. At 0 steps nothing is validated. A sequence with a pitch token whose value lies
  outside 21..109, or whose name \<open>Pitch_<value>\<close> is not in the vocabulary, is returned
  unchanged, although the loop of \<open>transpose_tokens\<close> run at shift 0 would reject it; and a
  sequence that fails at every shift other than 0 still succeeds at 0.
\<close>

theorem transpose_zero_skips_validation:
  assumes "augmenter_init vocab_items rng = Inr a"
  shows "((\<exists>t\<in>set tokens. \<exists>v. token_to_info a t = Some (Pitch v) \<and>
             (v < 21 \<or> 109 < v \<or> map_of vocab_items (''Pitch_'' @ str_int v) = None))
          \<longrightarrow> transpose_tokens a tokens 0 = Some tokens \<and> transpose_loop a 0 tokens [] = None)
       \<and> ((\<forall>steps. steps \<noteq> 0 \<longrightarrow> transpose_tokens a tokens steps = None)
          \<longrightarrow> transpose_tokens a tokens 0 = Some tokens)"
proof -
  have zero: "transpose_tokens a tokens 0 = Some tokens" by (simp add: transpose_tokens_def)
  have "transpose_loop a 0 tokens [] = None"
    if "\<exists>t\<in>set tokens. \<exists>v. token_to_info a t = Some (Pitch v) \<and>
             (v < 21 \<or> 109 < v \<or> map_of vocab_items (''Pitch_'' @ str_int v) = None)"
    using that by (simp add: transpose_loop_None_iff init_fields(1,2,4) [OF assms])
  with zero show ?thesis by blast
qed

theorem transpose_zero_skips_validation_witness:
  "augmenter_init wide_vocab (- 5, 6) = Inr wide_augmenter
   \<and> token_to_info wide_augmenter 0 = Some (Pitch 10) \<and> (10::int) < 21
   \<and> transpose_tokens wide_augmenter [0, 1] 11 = None
   \<and> transpose_tokens wide_augmenter [0, 1] 0 = Some [0, 1]
   \<and> transpose_loop wide_augmenter 0 [0, 1] [] = None"
proof -
  have entry: "token_to_info wide_augmenter 0 = Some (Pitch 10)" by (simp add: wide_augmenter_def)
  then have bad: "\<exists>t\<in>set [0, 1]. \<exists>v. token_to_info wide_augmenter t = Some (Pitch v) \<and>
             (v < 21 \<or> 109 < v \<or> map_of wide_vocab (''Pitch_'' @ str_int v) = None)"
    by simp
  have never: "\<forall>steps. steps \<noteq> 0 \<longrightarrow> transpose_tokens wide_augmenter [0, 1] steps = None"
    by (simp add: wide_always_fails)
  from transpose_zero_skips_validation [OF wide_init, of "[0, 1]"] bad never
  have "transpose_tokens wide_augmenter [0, 1] 0 = Some [0, 1]
        \<and> transpose_loop wide_augmenter 0 [0, 1] [] = None" by blast
  with entry show ?thesis by (simp add: wide_init wide_fails_at_optimal)
qed

text \<open>
  C6. For an engine built by \<open>__init__\<close>, \<open>augment_sequence\<close> is the list, over the
  configured offsets \<open>d\<close> in their order, of the pairs \<open>(optimal + d, result)\<close> for which
  \<open>transpose_tokens\<close> at \<open>optimal + d\<close> succeeds, with \<open>optimal\<close> the one value of
  \<open>find_optimal_transpose\<close>. Its offsets keep the configured order, none occurs twice, there
  are at most as many entries as configured offsets, and for each entry \<open>actual - optimal\<close> is
  a configured offset.
\<close>

theorem augment_sequence_results:
  assumes "augmenter_init vocab_items rng = Inr a"
  shows "augment_sequence a tokens =
           List.map_filter
             (\<lambda>d. map_option (Pair (find_optimal_transpose a tokens + d))
                    (transpose_tokens a tokens (find_optimal_transpose a tokens + d)))
             (transpose_values a)
       \<and> subseq (map fst (augment_sequence a tokens))
                 (map ((+) (find_optimal_transpose a tokens)) (transpose_values a))
       \<and> distinct (map fst (augment_sequence a tokens))
       \<and> length (augment_sequence a tokens) \<le> length (transpose_values a)
       \<and> (\<forall>(actual, r)\<in>set (augment_sequence a tokens).
             actual - find_optimal_transpose a tokens \<in> set (transpose_values a)
             \<and> transpose_tokens a tokens actual = Some r)"
proof -
  let ?opt = "find_optimal_transpose a tokens"
  let ?ok = "\<lambda>d. transpose_tokens a tokens (?opt + d) \<noteq> None"
  obtain low high where rng: "rng = (low, high)" by (cases rng)
  have vals: "distinct (transpose_values a)"
    using init_transpose_values [OF assms [unfolded rng]] by simp
  have eq: "augment_sequence a tokens =
      List.map_filter (\<lambda>d. map_option (Pair (?opt + d)) (transpose_tokens a tokens (?opt + d)))
        (transpose_values a)"
    by (simp add: augment_sequence_def augment_loop_eq)
  have order: "subseq (map fst (augment_sequence a tokens)) (map ((+) ?opt) (transpose_values a))"
    unfolding augment_offsets by (rule subseq_map) simp
  have nodup: "distinct (map fst (augment_sequence a tokens))"
    unfolding augment_offsets using vals by (simp add: distinct_map)
  have "length (map fst (augment_sequence a tokens)) \<le> length (transpose_values a)"
    unfolding augment_offsets by simp
  then have len: "length (augment_sequence a tokens) \<le> length (transpose_values a)" by simp
  have entries: "actual - ?opt \<in> set (transpose_values a) \<and> transpose_tokens a tokens actual = Some r"
    if "(actual, r) \<in> set (augment_sequence a tokens)" for actual r
  proof -
    from that obtain d where "d \<in> set (transpose_values a)"
      and "map_option (Pair (?opt + d)) (transpose_tokens a tokens (?opt + d)) = Some (actual, r)"
      unfolding eq by (auto simp: set_map_filter_iff)
    then show ?thesis by auto
  qed
  from eq order nodup len entries show ?thesis by blast
qed

theorem augment_sequence_results_witness:
  "augmenter_init drum_vocab (- 1, 1) = Inr drum_augmenter
   \<and> find_optimal_transpose drum_augmenter [5, 0, 3, 4] = 5
   \<and> transpose_values drum_augmenter = [- 1, 0, 1]
   \<and> augment_sequence drum_augmenter [5, 0, 3, 4] = [(4, [5, 1, 3, 4]), (5, [5, 2, 3, 4])]
   \<and> distinct (map fst (augment_sequence drum_augmenter [5, 0, 3, 4]))
   \<and> length (augment_sequence drum_augmenter [5, 0, 3, 4]) \<le> length (transpose_values drum_augmenter)"
proof -
  have vals: "transpose_values drum_augmenter = [- 1, 0, 1]" by (simp add: drum_augmenter_def)
  from augment_sequence_results [OF drum_init, of "[5, 0, 3, 4]"]
  have "distinct (map fst (augment_sequence drum_augmenter [5, 0, 3, 4]))"
    and "length (augment_sequence drum_augmenter [5, 0, 3, 4]) \<le> length (transpose_values drum_augmenter)"
    by blast+
  with vals show ?thesis
    by (simp add: drum_init drum_optimal drum_augment)
qed

text \<open>
  C7. The claim reads: a name that starts with \<open>Pitch_\<close> (and not \<open>PitchDrum_\<close>) gets the
  value parsed from its numeric suffix. It does not when the suffix holds an underscore:
  \<open>__init__\<close> parses \<open>split('_')[1]\<close>, the piece up to the next underscore. The name
  \<open>Pitch_6_0\<close> has the suffix \<open>6_0\<close>, which \<open>int\<close> reads as 60, and is stored with the
  value 6.
\<close>

theorem classifier_value_not_whole_suffix:
  "augmenter_init underscore_vocab (- 5, 6) = Inr underscore_augmenter
   \<and> (''Pitch_6_0'', 0) \<in> set underscore_vocab
   \<and> startswith ''Pitch_6_0'' ''Pitch_'' \<and> \<not> startswith ''Pitch_6_0'' ''PitchDrum_''
   \<and> drop (length ''Pitch_'') ''Pitch_6_0'' = ''6_0''
   \<and> py_int ''6_0'' = Inr 60
   \<and> classify ''Pitch_6_0'' = Inr (Pitch 6)
   \<and> token_to_info underscore_augmenter 0 = Some (Pitch 6)"
proof -
  have "token_to_info underscore_augmenter 0 = Some (Pitch 6)"
    by (simp add: underscore_augmenter_def)
  moreover have "(''Pitch_6_0'', 0) \<in> set underscore_vocab"
    by (simp add: underscore_vocab_def)
  moreover have "py_int ''6_0'' = Inr 60" and "classify ''Pitch_6_0'' = Inr (Pitch 6)"
    by (simp_all add: py_eval)
  ultimately show ?thesis
    by (simp add: underscore_init startswith_def)
qed

text \<open>
  C7, as amended. For every item of the vocabulary of an engine that \<open>__init__\<close> has built,
  the entry computed for the token string is: pitch with the integer parsed from the piece
  that follows \<open>Pitch_\<close> and ends before the next underscore, when the string starts with
  \<open>Pitch_\<close> and not with \<open>PitchDrum_\<close>; drum pitch with the integer parsed from the piece
  that follows \<open>PitchDrum_\<close> and ends before the next underscore, when it starts with that;
  chord with the piece that follows \<open>Chord_\<close> and ends before the next underscore, when it
  starts with that; and other in all remaining cases. The piece (\<open>piece_after\<close>) is the whole
  suffix when the suffix has no underscore (\<open>piece_after_whole\<close>). With unique ids the entry
  is the one stored in the table under the item's id.
\<close>

theorem classifier_assigns:
  assumes "augmenter_init vocab_items rng = Inr a" and "(token, idx) \<in> set vocab_items"
  shows "\<exists>info. classify token = Inr info
          \<and> (distinct (map snd vocab_items) \<longrightarrow> token_to_info a idx = Some info)
          \<and> (if startswith token ''Pitch_'' \<and> \<not> startswith token ''PitchDrum_''
             then \<exists>n. py_int (piece_after ''Pitch_'' token) = Inr n \<and> info = Pitch n
             else if startswith token ''PitchDrum_''
             then \<exists>n. py_int (piece_after ''PitchDrum_'' token) = Inr n \<and> info = DrumPitch n
             else if startswith token ''Chord_''
             then info = Chord (piece_after ''Chord_'' token)
             else info = Other)"
proof -
  note built = init_fields(6) [OF assms(1)]
  from build_classifies [OF built assms(2)]
  obtain info where info: "classify token = Inr info" ..
  have table: "token_to_info a idx = Some info" if "distinct (map snd vocab_items)"
    using build_unique_id [OF built that assms(2)] info by simp
  have shape: "if startswith token ''Pitch_'' \<and> \<not> startswith token ''PitchDrum_''
             then \<exists>n. py_int (piece_after ''Pitch_'' token) = Inr n \<and> info = Pitch n
             else if startswith token ''PitchDrum_''
             then \<exists>n. py_int (piece_after ''PitchDrum_'' token) = Inr n \<and> info = DrumPitch n
             else if startswith token ''Chord_''
             then info = Chord (piece_after ''Chord_'' token)
             else info = Other"
    using info unfolding classify_cases by (auto split: if_splits sum.splits)
  from info table shape show ?thesis by blast
qed

theorem classifier_assigns_witness:
  "augmenter_init underscore_vocab (- 5, 6) = Inr underscore_augmenter
   \<and> (''PitchDrum_ 36'', 1) \<in> set underscore_vocab
   \<and> distinct (map snd underscore_vocab)
   \<and> startswith ''PitchDrum_ 36'' ''PitchDrum_''
   \<and> piece_after ''PitchDrum_'' ''PitchDrum_ 36'' = '' 36''
   \<and> py_int '' 36'' = Inr 36
   \<and> classify ''PitchDrum_ 36'' = Inr (DrumPitch 36)
   \<and> token_to_info underscore_augmenter 1 = Some (DrumPitch 36)"
proof -
  have mem: "(''PitchDrum_ 36'', 1) \<in> set underscore_vocab" by (simp add: underscore_vocab_def)
  have ids: "distinct (map snd underscore_vocab)" by (simp add: underscore_vocab_def)
  have pre: "startswith ''PitchDrum_ 36'' ''PitchDrum_''" "\<not> startswith ''PitchDrum_ 36'' ''Pitch_''"
    by (simp_all add: startswith_def)
  have piece: "piece_after ''PitchDrum_'' ''PitchDrum_ 36'' = '' 36''"
    by (simp add: piece_after_def)
  have num: "py_int '' 36'' = Inr 36"
    by (simp add: py_eval)
  from classifier_assigns [OF underscore_init mem] ids pre piece num
  have "classify ''PitchDrum_ 36'' = Inr (DrumPitch 36)
        \<and> token_to_info underscore_augmenter 1 = Some (DrumPitch 36)"
    by auto
  with mem ids pre piece num show ?thesis by (simp add: underscore_init)
qed

text \<open>
  C10. For a configured range \<open>(low, high)\<close> with \<open>low \<le> high\<close> the offsets are exactly
  \<open>low, low + 1, ..., high\<close>: their number is \<open>high - low + 1\<close>, the \<open>i\<close>-th is \<open>low + i\<close>
  and they increase strictly. Hence the offsets in the list that \<open>augment_sequence\<close> returns
  increase strictly.
\<close>

theorem offsets_consecutive:
  assumes "augmenter_init vocab_items (low, high) = Inr a" and "low \<le> high"
  shows "transpose_values a = [low..high]
       \<and> length (transpose_values a) = nat (high - low + 1)
       \<and> (\<forall>i<length (transpose_values a). transpose_values a ! i = low + int i)
       \<and> sorted_wrt (<) (transpose_values a)
       \<and> sorted_wrt (<) (map fst (augment_sequence a tokens))"
proof -
  have vals: "transpose_values a = [low..high]"
    using assms(1) by (rule init_transpose_values)
  have nth: "transpose_values a ! i = low + int i" if "i < length (transpose_values a)" for i
    using that unfolding vals by simp
  have "sorted_wrt (<) (filter (\<lambda>d. transpose_tokens a tokens (find_optimal_transpose a tokens + d) \<noteq> None) [low..high])"
    by (rule sorted_wrt_filter) simp
  then have "sorted_wrt (<) (map fst (augment_sequence a tokens))"
    unfolding augment_offsets vals by (simp add: sorted_wrt_map)
  with vals nth show ?thesis by simp
qed

theorem offsets_consecutive_witness:
  "augmenter_init drum_vocab (- 1, 1) = Inr drum_augmenter \<and> (- 1 :: int) \<le> 1
   \<and> transpose_values drum_augmenter = [- 1, 0, 1]
   \<and> length (transpose_values drum_augmenter) = 3
   \<and> map fst (augment_sequence drum_augmenter [5, 0, 3, 4]) = [4, 5]
   \<and> sorted_wrt (<) (map fst (augment_sequence drum_augmenter [5, 0, 3, 4]))"
proof -
  have le: "(- 1 :: int) \<le> 1" by simp
  have vals: "transpose_values drum_augmenter = [- 1, 0, 1]" by (simp add: drum_augmenter_def)
  from offsets_consecutive [OF drum_init le, of "[5, 0, 3, 4]"]
  have "sorted_wrt (<) (map fst (augment_sequence drum_augmenter [5, 0, 3, 4]))"
    and "length (transpose_values drum_augmenter) = nat (1 - (- 1) + 1)"
    by blast+
  with vals show ?thesis
    by (simp add: drum_init drum_augment)
qed

end
